theory Spec2Isabelle
  imports Main "HOL-Library.AList"
begin

section \<open>Errors\<close>

text \<open>
  The helpers of \<^verbatim>\<open>src/index.ts\<close> raise one class of error, \<^verbatim>\<open>RangeError\<close>, with a
  message. A raise is the \<open>Inl\<close> branch of a sum.
\<close>

datatype error = RangeError string

section \<open>JavaScript values and ordinary objects\<close>

text \<open>
  The wrapper returned by \<^verbatim>\<open>named\<close> receives its arguments as \<^verbatim>\<open>any[]\<close>, so the values
  are modelled untyped. An object has a prototype (\<open>None\<close> is \<^verbatim>\<open>null\<close>) and own
  properties keyed by strings; each property holds a value and its \<^verbatim>\<open>enumerable\<close>
  attribute. Every property that the code under study creates is a writable, configurable
  data property, and it only reads data properties, so the attributes \<^verbatim>\<open>writable\<close> and
  \<^verbatim>\<open>configurable\<close>, accessors and symbol keys are not represented. Numbers are only
  passed through, never computed with.
\<close>

datatype jsval =
    JUndefined
  | JNull
  | JBool bool
  | JNum int
  | JStr string
  | JObj jsobj
and jsobj =
    JSObject (prototype: "jsobj option") (properties: "(string \<times> jsval \<times> bool) list")

fun typeof :: "jsval \<Rightarrow> string" where
  "typeof JUndefined = ''undefined''"
| "typeof JNull = ''object''"
| "typeof (JBool _) = ''boolean''"
| "typeof (JNum _) = ''number''"
| "typeof (JStr _) = ''string''"
| "typeof (JObj _) = ''object''"

text \<open>
  A number used as a property key is converted to a string. For an array index this is its
  decimal representation without leading zeros.
\<close>

definition digit :: "nat \<Rightarrow> char" where
  "digit d = ''0123456789'' ! d"

fun decimal :: "nat \<Rightarrow> string" where
  "decimal n = (if n < 10 then [digit n] else decimal (n div 10) @ [digit (n mod 10)])"

declare decimal.simps [simp del]

text \<open>
  \<^verbatim>\<open>args[i]\<close>: reading an array outside its bounds, also at a negative index, gives
  \<^verbatim>\<open>undefined\<close>.
\<close>

definition js_nth :: "jsval list \<Rightarrow> int \<Rightarrow> jsval" where
  "js_nth xs i = (if 0 \<le> i \<and> i < int (length xs) then xs ! nat i else JUndefined)"

text \<open>
  \<^verbatim>\<open>xs.slice(0, end)\<close>: a negative \<^verbatim>\<open>end\<close> counts from the end of the array and is
  clamped at the start; a non-negative one is clamped at the length.
\<close>

definition slice_0 :: "'a list \<Rightarrow> int \<Rightarrow> 'a list" where
  "slice_0 xs end = (if end < 0 then take (nat (int (length xs) + end)) xs else take (nat end) xs)"

text \<open>\<^verbatim>\<open>Object.create(proto)\<close>: a new object without own properties.\<close>

definition object_create :: "jsobj option \<Rightarrow> jsobj" where
  "object_create proto = JSObject proto []"

definition get_own :: "jsobj \<Rightarrow> string \<Rightarrow> (jsval \<times> bool) option" where
  "get_own obj k = map_of (properties obj) k"

text \<open>
  \<^verbatim>\<open>k in obj\<close> looks for the key among the own properties and then along the prototype
  chain; \<^verbatim>\<open>obj[k]\<close> reads along the same chain and gives \<^verbatim>\<open>undefined\<close> when the key
  is nowhere.
\<close>

fun has_property :: "jsobj \<Rightarrow> string \<Rightarrow> bool" where
  "has_property (JSObject proto ps) k =
     (map_of ps k \<noteq> None \<or> (case proto of None \<Rightarrow> False | Some p \<Rightarrow> has_property p k))"

fun get :: "jsobj \<Rightarrow> string \<Rightarrow> jsval" where
  "get (JSObject proto ps) k =
     (case map_of ps k of
        Some (v, _) \<Rightarrow> v
      | None \<Rightarrow> (case proto of None \<Rightarrow> JUndefined | Some p \<Rightarrow> get p k))"

text \<open>
  The assignment \<^verbatim>\<open>obj[k] = v\<close>, as \<^verbatim>\<open>Object.assign\<close> performs it on its target: an
  existing own property keeps its attributes and takes the new value, a new own property
  is enumerable.
\<close>

definition set_property :: "jsobj \<Rightarrow> string \<Rightarrow> jsval \<Rightarrow> jsobj" where
  "set_property obj k v =
     JSObject (prototype obj)
       (AList.update k (v, case get_own obj k of None \<Rightarrow> True | Some (_, e) \<Rightarrow> e)
          (properties obj))"

text \<open>
  \<^verbatim>\<open>Object.defineProperty(obj, k, { configurable: true, writable: true, value })\<close>: the
  descriptor does not mention \<^verbatim>\<open>enumerable\<close>, so a new property is not enumerable and an
  existing one keeps the attribute it has.
\<close>

definition define_property :: "jsobj \<Rightarrow> string \<Rightarrow> jsval \<Rightarrow> jsobj" where
  "define_property obj k v =
     JSObject (prototype obj)
       (AList.update k (v, case get_own obj k of None \<Rightarrow> False | Some (_, e) \<Rightarrow> e)
          (properties obj))"

text \<open>
  The view of an object as a mapping: its own enumerable properties and their values. This
  is what \<^verbatim>\<open>Object.assign\<close> copies from a source object, key by key. The sources
  \<^verbatim>\<open>undefined\<close> and \<^verbatim>\<open>null\<close> are skipped, a string contributes its characters under
  their indices, and the other primitive values have no own enumerable property.
\<close>

definition enumerable_own :: "jsobj \<Rightarrow> string \<Rightarrow> jsval option" where
  "enumerable_own obj k =
     (case get_own obj k of Some (v, True) \<Rightarrow> Some v | _ \<Rightarrow> None)"

definition copy_property :: "jsobj \<Rightarrow> string \<Rightarrow> jsobj \<Rightarrow> jsobj" where
  "copy_property from k to =
     (case enumerable_own from k of Some v \<Rightarrow> set_property to k v | None \<Rightarrow> to)"

definition object_assign :: "jsobj \<Rightarrow> jsval \<Rightarrow> jsobj" where
  "object_assign target source =
     (case source of
        JObj from \<Rightarrow> fold (copy_property from) (map fst (properties from)) target
      | JStr s \<Rightarrow>
          fold (\<lambda>i to. set_property to (decimal i) (JStr [s ! i])) [0..<length s] target
      | _ \<Rightarrow> target)"

section \<open>named\<close>

text \<open>
  \<^verbatim>\<open>
  export function named(replacer) {
    const namedCapturesWrapper = (...args) => {
      const { length } = args
      const named = args[length - 1]
      const captures = Object.create(null)
      if (typeof named === 'string') {
        args.slice(0, -2).forEach((value, index) => {
          Object.defineProperty(captures, index, { configurable: true, writable: true, value })
        })
        return replacer(captures, args[length - 2], named)
      }
      Object.assign(captures, named)
      args.slice(0, -3).forEach((value, index) => {
        if (index in captures) {
          throw new RangeError(`Numeric name ${index} used as a regexp capture name`)
        }
        Object.defineProperty(captures, index, { configurable: true, writable: true, value })
      })
      return replacer(captures, args[length - 3], args[length - 2])
    }
    return namedCapturesWrapper
  }
  \<close>
  The two \<^verbatim>\<open>forEach\<close> loops are the recursive functions \<open>define_each\<close> and
  \<open>define_each_checked\<close>; \<open>index\<close> is the position of \<open>value\<close> in the array.
\<close>

fun define_each :: "jsval list \<Rightarrow> nat \<Rightarrow> jsobj \<Rightarrow> jsobj" where
  "define_each [] index captures = captures"
| "define_each (v # vs) index captures =
     define_each vs (Suc index) (define_property captures (decimal index) v)"

fun define_each_checked :: "jsval list \<Rightarrow> nat \<Rightarrow> jsobj \<Rightarrow> error + jsobj" where
  "define_each_checked [] index captures = Inr captures"
| "define_each_checked (v # vs) index captures =
     (if has_property captures (decimal index)
      then Inl (RangeError
                 (''Numeric name '' @ decimal index @ '' used as a regexp capture name''))
      else define_each_checked vs (Suc index) (define_property captures (decimal index) v))"

text \<open>
  The callback \<open>replacer\<close> is code of the caller. It is modelled as a function of the state
  \<open>'s\<close> of the world it may read and change, returning its result \<open>'r\<close> with the new
  state. The type \<open>'r\<close> is left open: it stands for whatever a call of the callback
  produces, and the wrapper hands it on as it is. \<open>named replacer\<close> is the wrapper; it is
  applied to the argument list and the state. When the wrapper raises, the state is the one
  it was called in.
\<close>

definition named ::
  "(jsobj \<Rightarrow> jsval \<Rightarrow> jsval \<Rightarrow> 's \<Rightarrow> 'r \<times> 's) \<Rightarrow> jsval list \<Rightarrow> 's \<Rightarrow> (error + 'r) \<times> 's" where
  "named replacer args s =
     (let len = int (length args);
          named = js_nth args (len - 1);
          captures = object_create None
      in if typeof named = ''string'' then
           (let captures' = define_each (slice_0 args (- 2)) 0 captures;
                (r, s') = replacer captures' (js_nth args (len - 2)) named s
            in (Inr r, s'))
         else
           (case define_each_checked (slice_0 args (- 3)) 0
                   (object_assign captures named) of
              Inl e \<Rightarrow> (Inl e, s)
            | Inr captures' \<Rightarrow>
                (let (r, s') = replacer captures' (js_nth args (len - 3)) (js_nth args (len - 2)) s
                 in (Inr r, s'))))"

text \<open>
  The arguments that \<^verbatim>\<open>String.prototype.replace\<close> passes to its callback for one match:
  the matched substring, the captures in order, the offset of the match, the string being
  searched and, only when the pattern has named groups, the object of the named captures.
\<close>

definition replace_args ::
  "string \<Rightarrow> jsval list \<Rightarrow> jsval \<Rightarrow> string \<Rightarrow> jsobj option \<Rightarrow> jsval list" where
  "replace_args matched caps position str named_groups =
     JStr matched # caps @ [position, JStr str] @
       (case named_groups of None \<Rightarrow> [] | Some g \<Rightarrow> [JObj g])"

section \<open>Match results and groups\<close>

text \<open>
  The result of \<^verbatim>\<open>RegExp.prototype.exec\<close> or \<^verbatim>\<open>String.prototype.match\<close>: an array whose
  element 0 is the matched substring and whose further elements are the captures (a capture
  that did not participate is \<^verbatim>\<open>undefined\<close>, here \<open>None\<close>), with the properties
  \<^verbatim>\<open>index\<close>, \<^verbatim>\<open>input\<close> and \<^verbatim>\<open>groups\<close>. The \<^verbatim>\<open>groups\<close> property is
  \<^verbatim>\<open>undefined\<close> (\<open>None\<close>) or the object holding the named captures. That object is kept
  abstract (\<open>'g\<close>): it may be read as a value or as a reference to an object.
  The no-match value \<^verbatim>\<open>null\<close> is \<open>None\<close> of the option type around the record.
\<close>

record 'g match_result =
  re_elements :: "string option list"
  re_index :: nat
  re_input :: string
  re_groups :: "'g option"

text \<open>
  \<^verbatim>\<open>
  export function groups(result) {
    if (result === null) { return null }
    if (result.groups === undefined) {
      throw new RangeError('Attempted to read the named captures of a Regexp without named captures')
    }
    return result.groups as T
  }
  \<close>
\<close>

definition groups :: "'g match_result option \<Rightarrow> error + 'g option" where
  "groups result =
     (case result of
        None \<Rightarrow> Inr None
      | Some r \<Rightarrow>
          (case re_groups r of
             None \<Rightarrow>
               Inl (RangeError
                 ''Attempted to read the named captures of a Regexp without named captures'')
           | Some g \<Rightarrow> Inr (Some g)))"

section \<open>The pattern object and exec\<close>

text \<open>
  \<^verbatim>\<open>execAll\<close> calls \<^verbatim>\<open>regexp.exec(target)\<close> and reads \<^verbatim>\<open>regexp.global\<close>. Both belong to
  the host, not to the repository; they are modelled after the algorithm
  \<^verbatim>\<open>RegExpBuiltinExec\<close> of ECMAScript. The pattern itself stays a parameter: the
  \<open>matcher\<close> of a pattern object tells, for a string and a position, whether the pattern
  matches starting exactly there, and then where the match ends, what it captured and
  which named captures it has. The object carries the flags \<^verbatim>\<open>global\<close> and \<^verbatim>\<open>sticky\<close> and
  the mutable \<^verbatim>\<open>lastIndex\<close>. Positions count the characters of the string, and a search
  moves forward one position at a time (as without the unicode flag).
\<close>

record 'g match_state =
  ms_end :: nat
  ms_captures :: "string option list"
  ms_groups :: "'g option"

record 'g regexp =
  global :: bool
  sticky :: bool
  lastIndex :: nat
  matcher :: "string \<Rightarrow> nat \<Rightarrow> 'g match_state option"

text \<open>
  The search loop of \<^verbatim>\<open>exec\<close>: from position \<open>i\<close>, try the matcher; on failure a sticky
  pattern gives up, any other pattern tries the next position, until the position is
  beyond the end of the string.
\<close>

function regexp_search :: "'g regexp \<Rightarrow> string \<Rightarrow> nat \<Rightarrow> (nat \<times> 'g match_state) option" where
  "regexp_search R S i =
     (if i > length S then None
      else case matcher R S i of
             Some r \<Rightarrow> Some (i, r)
           | None \<Rightarrow> if sticky R then None else regexp_search R S (Suc i))"
  by pat_completeness auto
termination
  by (relation "measure (\<lambda>(R, S, i). Suc (length S) - i)") auto

declare regexp_search.simps [simp del]

definition substring :: "string \<Rightarrow> nat \<Rightarrow> nat \<Rightarrow> string" where
  "substring S from to = take (to - from) (drop from S)"

definition match_array :: "string \<Rightarrow> nat \<times> 'g match_state \<Rightarrow> 'g match_result" where
  "match_array S m =
     (case m of (i, r) \<Rightarrow>
        \<lparr>re_elements = Some (substring S i (ms_end r)) # ms_captures r,
         re_index = i, re_input = S, re_groups = ms_groups r\<rparr>)"

text \<open>
  \<^verbatim>\<open>regexp.exec(S)\<close> returns the match result or \<^verbatim>\<open>null\<close>, and the pattern object with
  its \<^verbatim>\<open>lastIndex\<close> as the call leaves it. A global or sticky pattern starts at its
  \<^verbatim>\<open>lastIndex\<close>, which becomes the end of the match, or 0 when there is no match; a
  pattern that is neither starts at 0 and its \<^verbatim>\<open>lastIndex\<close> is left alone.
\<close>

definition exec :: "'g regexp \<Rightarrow> string \<Rightarrow> 'g match_result option \<times> 'g regexp" where
  "exec R S =
     (let start = (if global R \<or> sticky R then lastIndex R else 0)
      in case regexp_search R S start of
           None \<Rightarrow> (None, if global R \<or> sticky R then R\<lparr>lastIndex := 0\<rparr> else R)
         | Some (i, r) \<Rightarrow>
             (Some (match_array S (i, r)),
              if global R \<or> sticky R then R\<lparr>lastIndex := ms_end r\<rparr> else R))"

section \<open>execAll\<close>

text \<open>
  \<^verbatim>\<open>
  export function* execAll(regexp: RegExp, target: string) {
    while (true) {
      const result = regexp.exec(target)
      if (result === null) { return }
      yield result
      if (!regexp.global) { return }
    }
  }
  \<close>
  A generator runs only when a value is pulled from it. It is suspended at its start, or
  at its \<^verbatim>\<open>yield\<close>, or it is completed. \<open>generator_next\<close> is one pull: it runs the body
  from the point of suspension to the next \<^verbatim>\<open>yield\<close> (\<open>Some result\<close>) or to a
  \<^verbatim>\<open>return\<close> (\<open>None\<close>). The pattern object is shared with the caller, so each pull takes
  the object as it is then and gives it back as the pull leaves it.
\<close>

datatype generator_state = SuspendedStart | SuspendedYield | Completed

definition loop_body ::
  "'g regexp \<Rightarrow> string \<Rightarrow> 'g match_result option \<times> generator_state \<times> 'g regexp" where
  "loop_body regexp target =
     (case exec regexp target of
        (None, regexp') \<Rightarrow> (None, Completed, regexp')
      | (Some result, regexp') \<Rightarrow> (Some result, SuspendedYield, regexp'))"

fun generator_next ::
  "generator_state \<Rightarrow> 'g regexp \<Rightarrow> string \<Rightarrow>
     'g match_result option \<times> generator_state \<times> 'g regexp" where
  "generator_next SuspendedStart regexp target = loop_body regexp target"
| "generator_next SuspendedYield regexp target =
     (if \<not> global regexp then (None, Completed, regexp) else loop_body regexp target)"
| "generator_next Completed regexp target = (None, Completed, regexp)"

text \<open>
  Iterating the generator to its end pulls until a pull returns. The loop of the source
  has no bound, so the iteration takes fuel, one unit for each pull: \<open>None\<close> means that the
  generator has not returned within that many pulls, \<open>Some\<close> holds the values yielded in
  order and the pattern object as the iteration leaves it. \<open>execAll fuel regexp target\<close>
  iterates the generator that \<^verbatim>\<open>execAll(regexp, target)\<close> creates, with nothing else
  touching the pattern object meanwhile.
\<close>

fun drain ::
  "nat \<Rightarrow> generator_state \<Rightarrow> 'g regexp \<Rightarrow> string \<Rightarrow> ('g match_result list \<times> 'g regexp) option" where
  "drain 0 st regexp target = None"
| "drain (Suc fuel) st regexp target =
     (case generator_next st regexp target of
        (None, st', regexp') \<Rightarrow> Some ([], regexp')
      | (Some result, st', regexp') \<Rightarrow>
          (case drain fuel st' regexp' target of
             None \<Rightarrow> None
           | Some (results, regexp'') \<Rightarrow> Some (result # results, regexp'')))"

definition execAll ::
  "nat \<Rightarrow> 'g regexp \<Rightarrow> string \<Rightarrow> ('g match_result list \<times> 'g regexp) option" where
  "execAll fuel regexp target = drain fuel SuspendedStart regexp target"

section \<open>The occurrences of a pattern in a string\<close>

text \<open>
  The specification counts the occurrences of a pattern in the target. This definition
  follows its words, not the code: the occurrences are found from left to right and do
  not overlap. From position \<open>p\<close>, the first position where the pattern matches gives an
  occurrence, and the next one is looked for where that match ends, or one position
  further when the match is empty.
\<close>

function occurrences ::
  "(string \<Rightarrow> nat \<Rightarrow> 'g match_state option) \<Rightarrow> string \<Rightarrow> nat \<Rightarrow> (nat \<times> 'g match_state) list" where
  "occurrences m S p =
     (if p > length S then []
      else case m S p of
             None \<Rightarrow> occurrences m S (Suc p)
           | Some r \<Rightarrow> (p, r) # occurrences m S (max (ms_end r) (Suc p)))"
  by pat_completeness auto
termination
  by (relation "measure (\<lambda>(m, S, p). Suc (length S) - p)") auto

declare occurrences.simps [simp del]

text \<open>
  A pattern for the examples: the matcher of a pattern that is one literal string, without
  groups. The empty literal matches the empty string at every position.
\<close>

definition literal :: "string \<Rightarrow> string \<Rightarrow> nat \<Rightarrow> 'g match_state option" where
  "literal w S i =
     (if i + length w \<le> length S \<and> take (length w) (drop i S) = w
      then Some \<lparr>ms_end = i + length w, ms_captures = [], ms_groups = None\<rparr>
      else None)"

section \<open>Properties of named\<close>

subsection \<open>Property keys, objects and the two loops\<close>

text \<open>
  Different indices have different decimal forms, so the positional keys never collide
  with each other.
\<close>

lemma distinct_digits: "distinct ''0123456789''" by simp

lemma digit_inj: "d < 10 \<Longrightarrow> d' < 10 \<Longrightarrow> digit d = digit d' \<Longrightarrow> d = d'"
  unfolding digit_def using distinct_digits
  by (simp only: nth_eq_iff_index_eq[OF distinct_digits] length_Cons list.size)

lemma decimal_not_Nil: "decimal n \<noteq> []"
  by (subst decimal.simps) simp

lemma decimal_inj: "decimal m = decimal n \<Longrightarrow> m = n"
proof (induction m arbitrary: n rule: decimal.induct)
  case (1 m)
  show ?case
  proof (cases "m < 10")
    case m: True
    show ?thesis
    proof (cases "n < 10")
      case True
      with m "1.prems" show ?thesis
        by (subst (asm) decimal.simps, subst (asm) (2) decimal.simps) (simp add: digit_inj)
    next
      case False
      with m "1.prems" decimal_not_Nil[of "n div 10"] show ?thesis
        by (subst (asm) decimal.simps, subst (asm) (2) decimal.simps) simp
    qed
  next
    case m: False
    show ?thesis
    proof (cases "n < 10")
      case True
      with m "1.prems" decimal_not_Nil[of "m div 10"] show ?thesis
        by (subst (asm) decimal.simps, subst (asm) (2) decimal.simps) simp
    next
      case False
      with m "1.prems" have eq: "decimal (m div 10) = decimal (n div 10)"
        and dg: "digit (m mod 10) = digit (n mod 10)"
        by (subst (asm) decimal.simps, subst (asm) (2) decimal.simps, simp)+
      from "1.IH"[OF m eq] have "m div 10 = n div 10" .
      moreover from dg have "m mod 10 = n mod 10" by (simp add: digit_inj)
      ultimately show ?thesis by (metis div_mult_mod_eq)
    qed
  qed
qed

text \<open>Reading and testing a key after a property has been set or defined.\<close>

lemma has_property_sel:
  "has_property obj k =
     (get_own obj k \<noteq> None \<or> (case prototype obj of None \<Rightarrow> False | Some p \<Rightarrow> has_property p k))"
  by (cases obj) (simp add: get_own_def)

lemma get_sel:
  "get obj k =
     (case get_own obj k of
        Some (v, _) \<Rightarrow> v
      | None \<Rightarrow> (case prototype obj of None \<Rightarrow> JUndefined | Some p \<Rightarrow> get p k))"
  by (cases obj) (simp add: get_own_def split: option.split)

lemma prototype_define_property [simp]: "prototype (define_property c k v) = prototype c"
  by (simp add: define_property_def)

lemma prototype_set_property [simp]: "prototype (set_property c k v) = prototype c"
  by (simp add: set_property_def)

lemma get_own_define_property:
  "get_own (define_property c k v) k' =
     (if k' = k then Some (v, case get_own c k of None \<Rightarrow> False | Some (_, e) \<Rightarrow> e)
      else get_own c k')"
  by (simp add: define_property_def get_own_def update_conv')

lemma get_own_set_property:
  "get_own (set_property c k v) k' =
     (if k' = k then Some (v, case get_own c k of None \<Rightarrow> True | Some (_, e) \<Rightarrow> e)
      else get_own c k')"
  by (simp add: set_property_def get_own_def update_conv')

lemma has_property_define_property:
  "has_property (define_property c k v) k' = (k' = k \<or> has_property c k')"
  by (subst has_property_sel, subst (2) has_property_sel)
     (simp add: get_own_define_property)

lemma has_property_set_property:
  "has_property (set_property c k v) k' = (k' = k \<or> has_property c k')"
  by (subst has_property_sel, subst (2) has_property_sel)
     (simp add: get_own_set_property)

lemma get_define_property:
  "get (define_property c k v) k' = (if k' = k then v else get c k')"
  by (subst get_sel, subst (2) get_sel) (simp add: get_own_define_property split: option.split)

lemma get_set_property:
  "get (set_property c k v) k' = (if k' = k then v else get c k')"
  by (subst get_sel, subst (2) get_sel) (simp add: get_own_set_property split: option.split)

text \<open>
  The loop without the check defines the keys \<open>i\<close>, \<open>i + 1\<close>, ... in turn and touches
  nothing else. The loop with the check does the same when none of these keys is in the
  object, and raises at the least one that is.
\<close>

lemma prototype_define_each [simp]: "prototype (define_each vs i c) = prototype c"
  by (induction vs arbitrary: i c) simp_all

lemma has_property_define_each:
  "has_property (define_each vs i c) k =
     (has_property c k \<or> (\<exists>j<length vs. k = decimal (i + j)))"
proof (induction vs arbitrary: i c)
  case Nil
  show ?case by simp
next
  case (Cons v vs)
  have "(\<exists>j<Suc (length vs). k = decimal (i + j)) =
        (k = decimal i \<or> (\<exists>j<length vs. k = decimal (Suc i + j)))"
    by (auto simp: less_Suc_eq_0_disj)
  then show ?case
    by (simp add: Cons.IH has_property_define_property) blast
qed

lemma get_define_each_other:
  "\<forall>j<length vs. k \<noteq> decimal (i + j) \<Longrightarrow> get (define_each vs i c) k = get c k"
proof (induction vs arbitrary: i c)
  case Nil
  show ?case by simp
next
  case (Cons v vs)
  from Cons.prems have k0: "k \<noteq> decimal i" by force
  from Cons.prems have "\<forall>j<length vs. k \<noteq> decimal (Suc i + j)" by force
  from Cons.IH[OF this] k0 show ?case
    by (simp add: get_define_property)
qed

lemma get_define_each:
  "j < length vs \<Longrightarrow> get (define_each vs i c) (decimal (i + j)) = vs ! j"
proof (induction vs arbitrary: i j c)
  case Nil
  then show ?case by simp
next
  case (Cons v vs)
  show ?case
  proof (cases j)
    case 0
    have "\<forall>j'<length vs. decimal i \<noteq> decimal (Suc i + j')"
      by (auto dest: decimal_inj)
    from get_define_each_other[OF this] 0 show ?thesis
      by (simp add: get_define_property)
  next
    case (Suc j')
    with Cons.prems have "j' < length vs" by simp
    from Cons.IH[OF this, of "Suc i"] Suc show ?thesis by simp
  qed
qed

lemma define_each_checked_ok:
  "\<forall>j<length vs. \<not> has_property c (decimal (i + j)) \<Longrightarrow>
   define_each_checked vs i c = Inr (define_each vs i c)"
proof (induction vs arbitrary: i c)
  case Nil
  show ?case by simp
next
  case (Cons v vs)
  from Cons.prems have h0: "\<not> has_property c (decimal i)" by force
  have "\<forall>j<length vs. \<not> has_property (define_property c (decimal i) v) (decimal (Suc i + j))"
  proof (intro allI impI)
    fix j assume "j < length vs"
    with Cons.prems have "\<not> has_property c (decimal (i + Suc j))" by force
    then show "\<not> has_property (define_property c (decimal i) v) (decimal (Suc i + j))"
      by (auto simp: has_property_define_property dest: decimal_inj)
  qed
  from Cons.IH[OF this] h0 show ?case by simp
qed

lemma define_each_checked_collision:
  "j < length vs \<Longrightarrow> has_property c (decimal (i + j)) \<Longrightarrow>
   \<exists>j'\<le>j. has_property c (decimal (i + j')) \<and>
     define_each_checked vs i c =
       Inl (RangeError (''Numeric name '' @ decimal (i + j') @ '' used as a regexp capture name''))"
proof (induction vs arbitrary: i j c)
  case Nil
  then show ?case by simp
next
  case (Cons v vs)
  show ?case
  proof (cases "has_property c (decimal i)")
    case True
    then show ?thesis by (intro exI[of _ 0]) simp
  next
    case False
    with Cons.prems obtain j0 where j: "j = Suc j0" by (cases j) auto
    with Cons.prems have "j0 < length vs"
      and "has_property (define_property c (decimal i) v) (decimal (Suc i + j0))"
      by (simp_all add: has_property_define_property)
    from Cons.IH[OF this] obtain j' where j': "j' \<le> j0"
      "has_property (define_property c (decimal i) v) (decimal (Suc i + j'))"
      "define_each_checked vs (Suc i) (define_property c (decimal i) v) =
         Inl (RangeError (''Numeric name '' @ decimal (Suc i + j') @ '' used as a regexp capture name''))"
      by blast
    from j'(2) have "has_property c (decimal (i + Suc j'))"
      by (auto simp: has_property_define_property dest: decimal_inj)
    with j' j False show ?thesis
      by (intro exI[of _ "Suc j'"]) simp
  qed
qed

lemma define_each_checked_Inl:
  "define_each_checked vs i c = Inl e \<Longrightarrow> \<exists>j<length vs. has_property c (decimal (i + j))"
proof (rule ccontr)
  assume a: "define_each_checked vs i c = Inl e"
    and "\<not> (\<exists>j<length vs. has_property c (decimal (i + j)))"
  then have "\<forall>j<length vs. \<not> has_property c (decimal (i + j))" by blast
  from define_each_checked_ok[OF this] a show False by simp
qed

lemma define_each_checked_Inr:
  assumes "define_each_checked vs i c = Inr c'"
  shows "\<forall>j<length vs. \<not> has_property c (decimal (i + j))"
proof (intro allI impI notI)
  fix j assume "j < length vs" and "has_property c (decimal (i + j))"
  from define_each_checked_collision[OF this] assms show False by auto
qed

text \<open>
  After \<^verbatim>\<open>Object.assign\<close> from an object, the target has the own enumerable keys of the
  source with their values, beside what it had.
\<close>

lemma prototype_copy_property [simp]: "prototype (copy_property from k t) = prototype t"
  by (simp add: copy_property_def split: option.split)

lemma has_property_copy_property:
  "has_property (copy_property from k t) k' =
     (has_property t k' \<or> (k' = k \<and> enumerable_own from k \<noteq> None))"
  by (cases "enumerable_own from k") (auto simp: copy_property_def has_property_set_property)

lemma get_copy_property:
  "get (copy_property from k t) k' =
     (if k' = k then (case enumerable_own from k of Some v \<Rightarrow> v | None \<Rightarrow> get t k')
      else get t k')"
  by (cases "enumerable_own from k") (simp_all add: copy_property_def get_set_property)

lemma fold_assign_prototype:
  "prototype (fold (copy_property from) ks t) = prototype t"
  by (induction ks arbitrary: t) simp_all

lemma fold_assign_has_property:
  "has_property (fold (copy_property from) ks t) k =
     (has_property t k \<or> (k \<in> set ks \<and> enumerable_own from k \<noteq> None))"
proof (induction ks arbitrary: t)
  case Nil
  show ?case by simp
next
  case (Cons a ks)
  show ?case
    by (simp only: fold_simps Cons.IH has_property_copy_property set_simps insert_iff) blast
qed

lemma fold_assign_get:
  "get (fold (copy_property from) ks t) k =
     (if k \<in> set ks then (case enumerable_own from k of Some v \<Rightarrow> v | None \<Rightarrow> get t k)
      else get t k)"
proof (induction ks arbitrary: t)
  case Nil
  show ?case by simp
next
  case (Cons a ks)
  have "get (fold (copy_property from) (a # ks) t) k =
        (if k \<in> set ks
         then (case enumerable_own from k of
                 Some v \<Rightarrow> v
               | None \<Rightarrow> get (copy_property from a t) k)
         else get (copy_property from a t) k)"
    by (simp only: fold_simps Cons.IH)
  also have "\<dots> =
        (if k \<in> set (a # ks)
         then (case enumerable_own from k of Some v \<Rightarrow> v | None \<Rightarrow> get t k)
         else get t k)"
    by (cases "enumerable_own from k") (auto simp: get_copy_property)
  finally show ?case .
qed

lemma enumerable_own_key: "enumerable_own from k = Some v \<Longrightarrow> k \<in> fst ` set (properties from)"
  by (auto simp: enumerable_own_def get_own_def split: option.splits bool.splits
           dest!: map_of_SomeD intro: rev_image_eqI)

lemma prototype_object_assign:
  "typeof source \<noteq> ''string'' \<Longrightarrow> prototype (object_assign t source) = prototype t"
  by (cases source) (simp_all add: object_assign_def fold_assign_prototype)

lemma has_property_object_assign:
  "has_property (object_assign t (JObj from)) k =
     (has_property t k \<or> enumerable_own from k \<noteq> None)"
  by (auto simp: object_assign_def fold_assign_has_property dest: enumerable_own_key)

lemma get_object_assign:
  "get (object_assign t (JObj from)) k =
     (case enumerable_own from k of Some v \<Rightarrow> v | None \<Rightarrow> get t k)"
  by (auto simp: object_assign_def fold_assign_get split: option.split dest: enumerable_own_key)

lemma object_assign_primitive:
  "typeof source \<noteq> ''string'' \<Longrightarrow> (\<forall>obj. source \<noteq> JObj obj) \<Longrightarrow> object_assign t source = t"
  by (cases source) (simp_all add: object_assign_def)

text \<open>The parts of an argument list that the wrapper reads.\<close>

lemma slice_0_minus: "0 < n \<Longrightarrow> slice_0 xs (- int n) = take (length xs - n) xs"
proof -
  have "nat (int (length xs) + - int n) = length xs - n" by arith
  then show "0 < n \<Longrightarrow> ?thesis" by (simp add: slice_0_def)
qed

lemma slice_0_minus_2: "slice_0 xs (- 2) = take (length xs - 2) xs"
  using slice_0_minus[of 2 xs] by simp

lemma slice_0_minus_3: "slice_0 xs (- 3) = take (length xs - 3) xs"
  using slice_0_minus[of 3 xs] by simp

lemma decimal_0: "decimal 0 = ''0''"
  by (simp add: decimal.simps digit_def)

lemma js_nth_int: "js_nth xs (int n) = (if n < length xs then xs ! n else JUndefined)"
  by (simp add: js_nth_def)

lemma js_nth_append_right: "js_nth (xs @ ys) (int (length xs + j)) = js_nth ys (int j)"
  by (simp only: js_nth_int) (simp add: nth_append)

lemma js_nth_last: "js_nth (xs @ [a]) (int (length (xs @ [a])) - 1) = a"
  by (simp add: js_nth_def)

lemma js_nth_last2: "js_nth (xs @ [a, b]) (int (length (xs @ [a, b])) - 2) = a"
  by (simp add: js_nth_def nth_append)

lemma js_nth_last3: "js_nth (xs @ [a, b, c]) (int (length (xs @ [a, b, c])) - 3) = a"
  by (simp add: js_nth_def nth_append)

lemma js_nth_last3': "js_nth (xs @ [a, b, c]) (int (length (xs @ [a, b, c])) - 2) = b"
proof -
  have "int (length (xs @ [a, b, c])) - 2 = int (length xs + 1)" by simp
  then show ?thesis by (simp only: js_nth_append_right) (simp add: js_nth_def)
qed

lemma has_property_object_create_None [simp]: "\<not> has_property (object_create None) k"
  by (simp add: object_create_def)

lemma prototype_object_create [simp]: "prototype (object_create p) = p"
  by (simp add: object_create_def)

lemma get_object_create_None [simp]: "get (object_create None) k = JUndefined"
  by (simp add: object_create_def)

text \<open>
  The wrapper on an argument list that ends with a string, on one that ends with an
  object, and on the argument lists of \<^verbatim>\<open>String.prototype.replace\<close>.
\<close>

lemma named_string_branch:
  "named replacer (pre @ [JStr str]) s =
     (case replacer (define_each (slice_0 (pre @ [JStr str]) (- 2)) 0 (object_create None))
             (js_nth (pre @ [JStr str]) (int (length (pre @ [JStr str])) - 2)) (JStr str) s of
        (r, s') \<Rightarrow> (Inr r, s'))"
  unfolding named_def Let_def js_nth_last by simp

lemma named_object_branch:
  "named replacer (pre @ [JObj g]) s =
     (case define_each_checked (slice_0 (pre @ [JObj g]) (- 3)) 0
             (object_assign (object_create None) (JObj g)) of
        Inl e \<Rightarrow> (Inl e, s)
      | Inr c \<Rightarrow>
          (case replacer c (js_nth (pre @ [JObj g]) (int (length (pre @ [JObj g])) - 3))
                  (js_nth (pre @ [JObj g]) (int (length (pre @ [JObj g])) - 2)) s of
             (r, s') \<Rightarrow> (Inr r, s')))"
  unfolding named_def Let_def js_nth_last by simp

lemma named_without_groups:
  "named replacer (replace_args matched caps position str None) s =
     (case replacer (define_each (JStr matched # caps) 0 (object_create None))
             position (JStr str) s of
        (r, s') \<Rightarrow> (Inr r, s'))"
proof -
  have a: "replace_args matched caps position str None = (JStr matched # caps @ [position]) @ [JStr str]"
    by (simp add: replace_args_def)
  have b: "js_nth ((JStr matched # caps @ [position]) @ [JStr str])
             (int (length ((JStr matched # caps @ [position]) @ [JStr str])) - 2) = position"
    using js_nth_last2[of "JStr matched # caps" position "JStr str"] by simp
  have c: "slice_0 ((JStr matched # caps @ [position]) @ [JStr str]) (- 2) = JStr matched # caps"
    by (simp add: slice_0_minus_2 slice_0_minus_3)
  show ?thesis
    unfolding a named_string_branch b c ..
qed

lemma named_with_groups:
  "named replacer (replace_args matched caps position str (Some g)) s =
     (case define_each_checked (JStr matched # caps) 0
             (object_assign (object_create None) (JObj g)) of
        Inl e \<Rightarrow> (Inl e, s)
      | Inr c \<Rightarrow>
          (case replacer c position (JStr str) s of (r, s') \<Rightarrow> (Inr r, s')))"
proof -
  have a: "replace_args matched caps position str (Some g) =
             (JStr matched # caps @ [position, JStr str]) @ [JObj g]"
    by (simp add: replace_args_def)
  have b: "js_nth ((JStr matched # caps @ [position, JStr str]) @ [JObj g])
             (int (length ((JStr matched # caps @ [position, JStr str]) @ [JObj g])) - 3) = position"
    using js_nth_last3[of "JStr matched # caps" position "JStr str" "JObj g"] by simp
  have b': "js_nth ((JStr matched # caps @ [position, JStr str]) @ [JObj g])
             (int (length ((JStr matched # caps @ [position, JStr str]) @ [JObj g])) - 2) = JStr str"
    using js_nth_last3'[of "JStr matched # caps" position "JStr str" "JObj g"] by simp
  have c: "slice_0 ((JStr matched # caps @ [position, JStr str]) @ [JObj g]) (- 3) =
             JStr matched # caps"
    by (simp add: slice_0_minus_2 slice_0_minus_3)
  show ?thesis
    unfolding a named_object_branch b b' c ..
qed

text \<open>The capture object that is built in each of the two branches.\<close>

lemma captures_without_groups:
  fixes caps matched
  defines "c \<equiv> define_each (JStr matched # caps) 0 (object_create None)"
  shows "prototype c = None"
    and "has_property c k = (k \<in> decimal ` {..length caps})"
    and "get c ''0'' = JStr matched"
    and "i < length caps \<Longrightarrow> get c (decimal (Suc i)) = caps ! i"
proof -
  show "prototype c = None" by (simp add: c_def)
  have "(\<exists>j<Suc (length caps). k = decimal j) = (k \<in> decimal ` {..length caps})"
    by (auto simp: less_Suc_eq_le)
  then show "has_property c k = (k \<in> decimal ` {..length caps})"
    unfolding c_def by (simp add: has_property_define_each del: define_each.simps)
  have "get (define_each (JStr matched # caps) 0 (object_create None)) (decimal (0 + 0)) =
          (JStr matched # caps) ! 0"
    by (rule get_define_each) simp
  then show "get c ''0'' = JStr matched" by (simp add: c_def decimal_0)
  assume "i < length caps"
  then have "Suc i < length (JStr matched # caps)" by simp
  from get_define_each[OF this, of 0 "object_create None"]
  show "get c (decimal (Suc i)) = caps ! i" by (simp add: c_def)
qed

lemma captures_with_groups:
  fixes caps matched g
  defines "c \<equiv> define_each (JStr matched # caps) 0 (object_assign (object_create None) (JObj g))"
  assumes free: "\<forall>i\<le>length caps. enumerable_own g (decimal i) = None"
  shows "define_each_checked (JStr matched # caps) 0
           (object_assign (object_create None) (JObj g)) = Inr c"
    and "prototype c = None"
    and "has_property c k = (k \<in> decimal ` {..length caps} \<or> enumerable_own g k \<noteq> None)"
    and "get c ''0'' = JStr matched"
    and "i < length caps \<Longrightarrow> get c (decimal (Suc i)) = caps ! i"
    and "enumerable_own g k = Some v \<Longrightarrow> get c k = v"
proof -
  from free have "\<forall>j<length (JStr matched # caps).
      \<not> has_property (object_assign (object_create None) (JObj g)) (decimal (0 + j))"
    by (simp add: has_property_object_assign less_Suc_eq_le)
  from define_each_checked_ok[OF this]
  show "define_each_checked (JStr matched # caps) 0
           (object_assign (object_create None) (JObj g)) = Inr c"
    by (simp add: c_def)
  show "prototype c = None" by (simp add: c_def prototype_object_assign)
  have "(\<exists>j<Suc (length caps). k = decimal j) = (k \<in> decimal ` {..length caps})"
    by (auto simp: less_Suc_eq_le)
  then show "has_property c k = (k \<in> decimal ` {..length caps} \<or> enumerable_own g k \<noteq> None)"
    unfolding c_def
    by (simp add: has_property_define_each has_property_object_assign del: define_each.simps)
       blast
  have "get (define_each (JStr matched # caps) 0 (object_assign (object_create None) (JObj g)))
          (decimal (0 + 0)) = (JStr matched # caps) ! 0"
    by (rule get_define_each) simp
  then show "get c ''0'' = JStr matched" by (simp add: c_def decimal_0)
  {
    assume "i < length caps"
    then have "Suc i < length (JStr matched # caps)" by simp
    from get_define_each[OF this, of 0 "object_assign (object_create None) (JObj g)"]
    show "get c (decimal (Suc i)) = caps ! i" by (simp add: c_def)
  }
  {
    assume kv: "enumerable_own g k = Some v"
    with free have "\<forall>j<length (JStr matched # caps). k \<noteq> decimal (0 + j)"
      by (auto simp: less_Suc_eq_le)
    from get_define_each_other[OF this] kv
    show "get c k = v" by (simp add: c_def get_object_assign)
  }
qed

lemma decimal_small:
  "decimal 0 = ''0''" "decimal (Suc 0) = ''1''" "decimal 2 = ''2''" "decimal 3 = ''3''"
  by (simp_all add: decimal.simps digit_def)

lemma case_prod_Inr_eq:
  "((case p of (r, s') \<Rightarrow> (Inr r, s')) = (Inr r0, s0)) = (p = (r0, s0))"
  by (cases p) simp

lemma case_prod_Inr_neq_Inl:
  "(case p of (r, s') \<Rightarrow> (Inr r, s')) \<noteq> (Inl e, s0)"
  by (cases p) simp

lemma named_raises_only_on_object:
  assumes "named replacer args s = (Inl e, s')"
  shows "\<exists>pre g. args = pre @ [JObj g]"
proof -
  let ?named = "js_nth args (int (length args) - 1)"
  let ?t = "object_assign (object_create None) ?named"
  have ns: "typeof ?named \<noteq> ''string''"
  proof
    assume "typeof ?named = ''string''"
    then have "named replacer args s =
        (case replacer (define_each (slice_0 args (- 2)) 0 (object_create None))
                (js_nth args (int (length args) - 2)) ?named s of
           (r, s') \<Rightarrow> (Inr r, s'))"
      unfolding named_def Let_def by (simp only: simp_thms if_True)
    with assms show False by (simp only: case_prod_Inr_neq_Inl)
  qed
  then have eq: "named replacer args s =
      (case define_each_checked (slice_0 args (- 3)) 0 ?t of
         Inl e \<Rightarrow> (Inl e, s)
       | Inr captures' \<Rightarrow>
           (case replacer captures' (js_nth args (int (length args) - 3))
                   (js_nth args (int (length args) - 2)) s of
              (r, s') \<Rightarrow> (Inr r, s')))"
    unfolding named_def Let_def by (simp only: if_False)
  obtain e' where "define_each_checked (slice_0 args (- 3)) 0 ?t = Inl e'"
  proof (cases "define_each_checked (slice_0 args (- 3)) 0 ?t")
    case (Inl a)
    then show ?thesis using that by blast
  next
    case (Inr b)
    with eq assms show ?thesis
      using case_prod_Inr_neq_Inl[of "replacer b (js_nth args (int (length args) - 3))
                   (js_nth args (int (length args) - 2)) s" e s']
      by simp
  qed
  from define_each_checked_Inl[OF this] obtain j where j: "has_property ?t (decimal (0 + j))"
    by blast
  have "\<exists>g. ?named = JObj g"
  proof (rule ccontr)
    assume "\<not> (\<exists>g. ?named = JObj g)"
    with ns have "?t = object_create None"
      by (intro object_assign_primitive) auto
    with j show False by simp
  qed
  then obtain g where g: "?named = JObj g" ..
  then have ne: "args \<noteq> []" by (auto simp: js_nth_def)
  with g have "last args = JObj g"
    by (simp add: js_nth_def last_conv_nth nat_diff_distrib' split: if_splits)
  with ne have "args = butlast args @ [JObj g]" by (metis append_butlast_last_id)
  then show ?thesis by blast
qed

lemma collision_example:
  "named (\<lambda>c i orig s. ((c, i, orig), Suc s))
     [JStr ''x'', JNum 0, JStr ''x'', JObj (JSObject None [(''0'', JUndefined, True)])] (0::nat) =
   (Inl (RangeError ''Numeric name 0 used as a regexp capture name''), 0)"
  by (simp add: named_def Let_def js_nth_def slice_0_minus_2 slice_0_minus_3 object_create_def
        object_assign_def copy_property_def enumerable_own_def get_own_def set_property_def
        decimal_small)

subsection \<open>The claims about named\<close>

text \<open>
  Claim C1. When \<^verbatim>\<open>String.prototype.replace\<close> calls the wrapper for a match of a pattern
  with \<open>length caps\<close> groups, the wrapper calls the callback with one capture object \<open>c\<close>,
  the offset and the string, and \<open>c\<close> has under key 0 the matched substring, under the
  keys 1 to \<open>length caps\<close> the captures in their order, and under each key of the
  named-captures object the value that object has there. The group names of a pattern are
  identifiers, so none of them is the decimal form of an index; this is the hypothesis.
\<close>

theorem named_capture_object:
  assumes free: "\<And>g i. named_groups = Some g \<Longrightarrow> i \<le> length caps \<Longrightarrow>
                    enumerable_own g (decimal i) = None"
  shows "\<exists>c. (\<forall>replacer s.
                 named replacer (replace_args matched caps position str named_groups) s =
                   (case replacer c position (JStr str) s of (r, s') \<Rightarrow> (Inr r, s')))
            \<and> has_property c ''0'' \<and> get c ''0'' = JStr matched
            \<and> (\<forall>i<length caps.
                  has_property c (decimal (Suc i)) \<and> get c (decimal (Suc i)) = caps ! i)
            \<and> (\<forall>g k v. named_groups = Some g \<longrightarrow> enumerable_own g k = Some v \<longrightarrow>
                  has_property c k \<and> get c k = v)"
proof (cases named_groups)
  case None
  let ?c = "define_each (JStr matched # caps) 0 (object_create None)"
  have "\<forall>replacer s.
          named replacer (replace_args matched caps position str named_groups) s =
            (case replacer ?c position (JStr str) s of (r, s') \<Rightarrow> (Inr r, s'))"
    unfolding None named_without_groups by simp
  moreover have "has_property ?c ''0''"
    unfolding captures_without_groups(2) using decimal_0 by (metis atMost_iff image_eqI le0)
  moreover have "get ?c ''0'' = JStr matched" by (rule captures_without_groups(3))
  moreover have "\<forall>i<length caps.
      has_property ?c (decimal (Suc i)) \<and> get ?c (decimal (Suc i)) = caps ! i"
    unfolding captures_without_groups(2)
    by (simp add: captures_without_groups(4) del: define_each.simps)
  ultimately show ?thesis using None by blast
next
  case (Some g)
  let ?c = "define_each (JStr matched # caps) 0 (object_assign (object_create None) (JObj g))"
  from free[OF Some] have fr: "\<forall>i\<le>length caps. enumerable_own g (decimal i) = None" by blast
  note cg = captures_with_groups[OF fr]
  have "\<forall>replacer s.
          named replacer (replace_args matched caps position str named_groups) s =
            (case replacer ?c position (JStr str) s of (r, s') \<Rightarrow> (Inr r, s'))"
    unfolding Some named_with_groups cg(1) by simp
  moreover have "has_property ?c ''0''"
    unfolding cg(3) using decimal_0 by (metis atMost_iff image_eqI le0)
  moreover have "get ?c ''0'' = JStr matched" by (rule cg(4))
  moreover have "\<forall>i<length caps.
      has_property ?c (decimal (Suc i)) \<and> get ?c (decimal (Suc i)) = caps ! i"
    unfolding cg(3) by (simp add: cg(5) del: define_each.simps)
  moreover have "\<forall>g' k v. named_groups = Some g' \<longrightarrow> enumerable_own g' k = Some v \<longrightarrow>
                  has_property ?c k \<and> get ?c k = v"
    unfolding cg(3) using Some by (simp add: cg(6) del: define_each.simps)
  ultimately show ?thesis by blast
qed

text \<open>
  The theorem at the first match of the pattern with the groups \<open>year\<close> and \<open>month\<close> in
  \<open>2020-01,2021-02\<close>; the callback returns what it was given and counts its calls.
\<close>

theorem named_capture_object_witness:
  "\<exists>c. named (\<lambda>c i orig s. ((c, i, orig), Suc s))
          (replace_args ''2020-01'' [JStr ''2020'', JStr ''01''] (JNum 0) ''2020-01,2021-02''
             (Some (JSObject None [(''year'', JStr ''2020'', True), (''month'', JStr ''01'', True)])))
          (0::nat) =
          (Inr (c, JNum 0, JStr ''2020-01,2021-02''), 1)
     \<and> get c ''0'' = JStr ''2020-01''
     \<and> get c ''1'' = JStr ''2020''
     \<and> get c ''2'' = JStr ''01''
     \<and> get c ''year'' = JStr ''2020''
     \<and> get c ''month'' = JStr ''01''"
proof -
  let ?g = "JSObject None [(''year'', JStr ''2020'', True), (''month'', JStr ''01'', True)]"
  let ?caps = "[JStr ''2020'', JStr ''01'']"
  have free: "enumerable_own g (decimal i) = None"
    if "Some ?g = Some g" and "i \<le> length ?caps" for g i
  proof -
    from that(2) have "i = 0 \<or> i = Suc 0 \<or> i = 2" by auto
    with that(1) show ?thesis
      by (auto simp: enumerable_own_def get_own_def decimal_small)
  qed
  from named_capture_object[of "Some ?g" ?caps "''2020-01''" "JNum 0" "''2020-01,2021-02''", OF free]
  obtain c where c:
    "\<forall>replacer s. named replacer
        (replace_args ''2020-01'' ?caps (JNum 0) ''2020-01,2021-02'' (Some ?g)) (s::nat) =
          (case replacer c (JNum 0) (JStr ''2020-01,2021-02'') s of
             (r :: jsobj \<times> jsval \<times> jsval, s') \<Rightarrow> (Inr r, s'))"
    "get c ''0'' = JStr ''2020-01''"
    "\<forall>i<length ?caps. has_property c (decimal (Suc i)) \<and> get c (decimal (Suc i)) = ?caps ! i"
    "\<forall>g k v. Some ?g = Some g \<longrightarrow> enumerable_own g k = Some v \<longrightarrow>
       has_property c k \<and> get c k = v"
    by blast
  from c(3) have "get c (decimal (Suc 0)) = ?caps ! 0" "get c (decimal (Suc (Suc 0))) = ?caps ! Suc 0"
    by simp_all
  then have p: "get c ''1'' = JStr ''2020''" "get c ''2'' = JStr ''01''"
    by (simp_all add: decimal_small numeral_2_eq_2[symmetric])
  have "enumerable_own ?g ''year'' = Some (JStr ''2020'')"
       "enumerable_own ?g ''month'' = Some (JStr ''01'')"
    by (simp_all add: enumerable_own_def get_own_def)
  with c(4) have n: "get c ''year'' = JStr ''2020''" "get c ''month'' = JStr ''01''"
    by blast+
  from c(1) have "named (\<lambda>c i orig s. ((c, i, orig), Suc s))
        (replace_args ''2020-01'' ?caps (JNum 0) ''2020-01,2021-02'' (Some ?g)) (0::nat) =
          (Inr (c, JNum 0, JStr ''2020-01,2021-02''), 1)"
    by simp
  with c(2) p n show ?thesis by blast
qed

text \<open>
  Claim C2. When the last argument is an object and one of its own enumerable keys is the
  decimal form of an index \<open>i\<close> that is filled from the arguments before the last three
  (index 0, the full match, included), the wrapper raises a RangeError that names the
  least such index. It does so for every callback and leaves the state as it was: the
  callback has not been called.
\<close>

theorem named_numeric_collision:
  assumes "i < length (pre @ [JObj g]) - 3"
    and "enumerable_own g (decimal i) \<noteq> None"
  shows "\<exists>j\<le>i. enumerable_own g (decimal j) \<noteq> None \<and>
           (\<forall>replacer s.
              named replacer (pre @ [JObj g]) s =
                (Inl (RangeError
                   (''Numeric name '' @ decimal j @ '' used as a regexp capture name'')), s))"
proof -
  let ?t = "object_assign (object_create None) (JObj g)"
  let ?vs = "slice_0 (pre @ [JObj g]) (- 3)"
  from assms(1) have "i < length ?vs" by (simp add: slice_0_minus_2 slice_0_minus_3)
  moreover from assms(2) have "has_property ?t (decimal (0 + i))"
    by (simp add: has_property_object_assign)
  ultimately obtain j where j: "j \<le> i" "has_property ?t (decimal (0 + j))"
    "define_each_checked ?vs 0 ?t =
       Inl (RangeError (''Numeric name '' @ decimal (0 + j) @ '' used as a regexp capture name''))"
    using define_each_checked_collision[of i ?vs ?t 0] by blast
  from j(2) have "enumerable_own g (decimal j) \<noteq> None"
    by (simp add: has_property_object_assign)
  moreover from j(3) have "\<forall>replacer s.
      named replacer (pre @ [JObj g]) s =
        (Inl (RangeError (''Numeric name '' @ decimal j @ '' used as a regexp capture name'')), s)"
    unfolding named_object_branch by simp
  ultimately show ?thesis using j(1) by blast
qed

text \<open>The theorem for a named-captures object with the key \<open>2\<close> beside two captures.\<close>

theorem named_numeric_collision_witness:
  "named (\<lambda>c i orig s. (''never called'', Suc s))
     ([JStr ''ab'', JStr ''a'', JStr ''b'', JNum 0, JStr ''ab''] @
      [JObj (JSObject None [(''2'', JStr ''b'', True)])]) (0::nat) =
     (Inl (RangeError ''Numeric name 2 used as a regexp capture name''), 0)"
proof -
  let ?g = "JSObject None [(''2'', JStr ''b'', True)]"
  let ?pre = "[JStr ''ab'', JStr ''a'', JStr ''b'', JNum 0, JStr ''ab'']"
  have a: "2 < length (?pre @ [JObj ?g]) - 3" by simp
  have e: "\<And>j. enumerable_own ?g (decimal j) \<noteq> None \<Longrightarrow> decimal j = ''2''"
    by (simp add: enumerable_own_def get_own_def split: if_splits)
  have b: "enumerable_own ?g (decimal 2) \<noteq> None"
    by (simp add: enumerable_own_def get_own_def decimal_small)
  from named_numeric_collision[OF a b] obtain j where j:
    "enumerable_own ?g (decimal j) \<noteq> None"
    "\<forall>replacer s. named replacer (?pre @ [JObj ?g]) (s::nat) =
       (Inl (RangeError (''Numeric name '' @ decimal j @ '' used as a regexp capture name'')) :: error + string, s)"
    by blast
  from e[OF j(1)] j(2) show ?thesis by simp
qed

text \<open>
  Claim C8. When a call of the wrapper from \<^verbatim>\<open>String.prototype.replace\<close> does not raise,
  its result and the state it leaves are the result and the state of one call of the
  callback, made in the state the wrapper was called in, on the assembled capture object,
  the offset and the string. The capture object is the same for every callback and state,
  so the wrapper is this one call and has no effect of its own. It is the object without
  prototype whose keys are the decimal forms of the indices 0 to \<open>length caps\<close> and the
  own enumerable keys of the named-captures object, and it holds the matched substring
  under key 0, the captures in their order under the keys from 1 on, and under each named
  key the value that the named-captures object has there.
\<close>

theorem named_invokes_replacer_once:
  assumes run: "named replacer (replace_args matched caps position str named_groups) s = (Inr r, s')"
  shows "\<exists>c. replacer c position (JStr str) s = (r, s') \<and>
             (\<forall>rep st. named rep (replace_args matched caps position str named_groups) st =
                (case rep c position (JStr str) st of (r', st') \<Rightarrow> (Inr r', st'))) \<and>
             prototype c = None \<and>
             (\<forall>k. has_property c k =
                    (k \<in> decimal ` {..length caps} \<or>
                     (\<exists>g v. named_groups = Some g \<and> enumerable_own g k = Some v))) \<and>
             get c ''0'' = JStr matched \<and>
             (\<forall>i<length caps. get c (decimal (Suc i)) = caps ! i) \<and>
             (\<forall>g k v. named_groups = Some g \<longrightarrow> enumerable_own g k = Some v \<longrightarrow> get c k = v)"
proof (cases named_groups)
  case None
  let ?c = "define_each (JStr matched # caps) 0 (object_create None)"
  from run have "replacer ?c position (JStr str) s = (r, s')"
    unfolding None named_without_groups case_prod_Inr_eq .
  moreover have "\<forall>rep st. named rep (replace_args matched caps position str named_groups) st =
                (case rep ?c position (JStr str) st of (r', st') \<Rightarrow> (Inr r', st'))"
    unfolding None named_without_groups by simp
  moreover have "prototype ?c = None" by (rule captures_without_groups(1))
  moreover have "\<forall>k. has_property ?c k =
      (k \<in> decimal ` {..length caps} \<or>
       (\<exists>g v. named_groups = Some g \<and> enumerable_own g k = Some v))"
    unfolding captures_without_groups(2) None by simp
  moreover have "get ?c ''0'' = JStr matched" by (rule captures_without_groups(3))
  moreover have "\<forall>i<length caps. get ?c (decimal (Suc i)) = caps ! i"
    by (simp add: captures_without_groups(4) del: define_each.simps)
  ultimately show ?thesis using None by blast
next
  case (Some g)
  let ?t = "object_assign (object_create None) (JObj g)"
  let ?c = "define_each (JStr matched # caps) 0 ?t"
  obtain c where ok: "define_each_checked (JStr matched # caps) 0 ?t = Inr c"
  proof (cases "define_each_checked (JStr matched # caps) 0 ?t")
    case (Inl e)
    with run show ?thesis
      unfolding Some named_with_groups by simp
  next
    case (Inr c)
    then show ?thesis using that by blast
  qed
  from define_each_checked_Inr[OF ok]
  have fr: "\<forall>i\<le>length caps. enumerable_own g (decimal i) = None"
    by (simp add: has_property_object_assign less_Suc_eq_le)
  note cg = captures_with_groups[OF fr]
  from run have "replacer ?c position (JStr str) s = (r, s')"
    unfolding Some named_with_groups cg(1) by (simp add: case_prod_Inr_eq)
  moreover have "\<forall>rep st. named rep (replace_args matched caps position str named_groups) st =
                (case rep ?c position (JStr str) st of (r', st') \<Rightarrow> (Inr r', st'))"
    unfolding Some named_with_groups cg(1) by simp
  moreover have "prototype ?c = None" by (rule cg(2))
  moreover have "\<forall>k. has_property ?c k =
      (k \<in> decimal ` {..length caps} \<or>
       (\<exists>g v. named_groups = Some g \<and> enumerable_own g k = Some v))"
    unfolding cg(3) Some by auto
  moreover have "get ?c ''0'' = JStr matched" by (rule cg(4))
  moreover have "\<forall>i<length caps. get ?c (decimal (Suc i)) = caps ! i"
    by (simp add: cg(5) del: define_each.simps)
  moreover have "\<forall>g' k v. named_groups = Some g' \<longrightarrow> enumerable_own g' k = Some v \<longrightarrow>
                  get ?c k = v"
    using Some by (simp add: cg(6) del: define_each.simps)
  ultimately show ?thesis by blast
qed

text \<open>
  The theorem for a callback that reads the keys 0, 1 and 2 of the capture object and
  appends its call to a log: it finds the matched substring and the capture, no key 2, and
  a log with one entry gets exactly one more.
\<close>

theorem named_invokes_replacer_once_witness:
  "named (\<lambda>c i orig log. ((get c ''0'', get c ''1'', has_property c ''2''), log @ [(i, orig)]))
     (replace_args ''ab'' [JStr ''b''] (JNum 3) ''abcab'' None) [(JNum 0, JStr ''abcab'')] =
   (Inr (JStr ''ab'', JStr ''b'', False), [(JNum 0, JStr ''abcab''), (JNum 3, JStr ''abcab'')])"
proof -
  let ?rep = "\<lambda>(c::jsobj) (i::jsval) (orig::jsval) log.
                ((get c ''0'', get c ''1'', has_property c ''2''), log @ [(i, orig)])"
  let ?args = "replace_args ''ab'' [JStr ''b''] (JNum 3) ''abcab'' None"
  have keys: "decimal ` {..length [JStr ''b'']} = {''0'', ''1''}"
    by (auto simp: decimal_small atMost_Suc)
  obtain r0 s0 where run: "named ?rep ?args [] = (Inr r0, s0)"
    by (simp add: named_without_groups)
  from named_invokes_replacer_once[OF run] obtain c where c:
    "\<forall>rep st. named rep ?args st =
       (case rep c (JNum 3) (JStr ''abcab'') st of
          (r' :: jsval \<times> jsval \<times> bool, st' :: (jsval \<times> jsval) list) \<Rightarrow> (Inr r', st'))"
    "\<forall>k. has_property c k = (k \<in> decimal ` {..length [JStr ''b'']} \<or>
        (\<exists>g v. (None :: jsobj option) = Some g \<and> enumerable_own g k = Some v))"
    "get c ''0'' = JStr ''ab''"
    "\<forall>i<length [JStr ''b'']. get c (decimal (Suc i)) = [JStr ''b''] ! i"
    by blast
  from c(4) have "get c ''1'' = JStr ''b''" by (simp add: decimal_small)
  moreover from c(2) have "\<not> has_property c ''2''" unfolding keys by simp
  ultimately show ?thesis using c(1) c(3) by simp
qed

text \<open>
  Claim C9. The capture object has no prototype. A call of the wrapper from
  \<^verbatim>\<open>String.prototype.replace\<close> either raises, and then an own enumerable key of the
  named-captures object is the decimal form of the index it names, or it calls the callback
  on an object whose prototype is null and in which \<^verbatim>\<open>k in c\<close> holds for exactly the
  decimal forms of the indices 0 to \<open>length caps\<close> and the own enumerable keys of the
  named-captures object. No inherited key can raise the error or be seen by the callback.
\<close>

theorem captures_null_prototype:
  "(\<exists>g i. named_groups = Some g \<and> i \<le> length caps \<and> enumerable_own g (decimal i) \<noteq> None \<and>
       (\<forall>replacer s.
          named replacer (replace_args matched caps position str named_groups) s =
            (Inl (RangeError
               (''Numeric name '' @ decimal i @ '' used as a regexp capture name'')), s)))
   \<or> (\<exists>c. (\<forall>replacer s.
              named replacer (replace_args matched caps position str named_groups) s =
                (case replacer c position (JStr str) s of (r, s') \<Rightarrow> (Inr r, s'))) \<and>
           prototype c = None \<and>
           (\<forall>k. has_property c k =
                  (k \<in> decimal ` {..length caps} \<or>
                   (\<exists>g v. named_groups = Some g \<and> enumerable_own g k = Some v))))"
proof (cases named_groups)
  case None
  let ?c = "define_each (JStr matched # caps) 0 (object_create None)"
  have "\<forall>replacer s.
          named replacer (replace_args matched caps position str named_groups) s =
            (case replacer ?c position (JStr str) s of (r, s') \<Rightarrow> (Inr r, s'))"
    unfolding None named_without_groups by simp
  moreover have "prototype ?c = None" by (rule captures_without_groups(1))
  moreover have "\<forall>k. has_property ?c k =
      (k \<in> decimal ` {..length caps} \<or>
       (\<exists>g v. named_groups = Some g \<and> enumerable_own g k = Some v))"
    unfolding captures_without_groups(2) None by simp
  ultimately show ?thesis by blast
next
  case (Some g)
  let ?t = "object_assign (object_create None) (JObj g)"
  show ?thesis
  proof (cases "\<forall>i\<le>length caps. enumerable_own g (decimal i) = None")
    case True
    let ?c = "define_each (JStr matched # caps) 0 ?t"
    note cg = captures_with_groups[OF True]
    have "\<forall>replacer s.
            named replacer (replace_args matched caps position str named_groups) s =
              (case replacer ?c position (JStr str) s of (r, s') \<Rightarrow> (Inr r, s'))"
      unfolding Some named_with_groups cg(1) by simp
    moreover have "prototype ?c = None" by (rule cg(2))
    moreover have "\<forall>k. has_property ?c k =
        (k \<in> decimal ` {..length caps} \<or>
         (\<exists>g v. named_groups = Some g \<and> enumerable_own g k = Some v))"
      unfolding cg(3) Some by auto
    ultimately show ?thesis by blast
  next
    case False
    then obtain i where i: "i \<le> length caps" "enumerable_own g (decimal i) \<noteq> None"
      by blast
    then have "i < length (JStr matched # caps)" "has_property ?t (decimal (0 + i))"
      by (simp_all add: has_property_object_assign)
    from define_each_checked_collision[OF this] obtain j where j: "j \<le> i"
      "has_property ?t (decimal (0 + j))"
      "define_each_checked (JStr matched # caps) 0 ?t =
         Inl (RangeError (''Numeric name '' @ decimal (0 + j) @ '' used as a regexp capture name''))"
      by blast
    from j(2) have "enumerable_own g (decimal j) \<noteq> None"
      by (simp add: has_property_object_assign)
    moreover from j(1) i(1) have "j \<le> length caps" by simp
    moreover from j(3) have "\<forall>replacer s.
        named replacer (replace_args matched caps position str named_groups) s =
          (Inl (RangeError (''Numeric name '' @ decimal j @ '' used as a regexp capture name'')), s)"
      unfolding Some named_with_groups by simp
    ultimately show ?thesis using Some by blast
  qed
qed

text \<open>
  The theorem for a pattern with one group and no named group: the callback sees the keys
  \<open>0\<close> and \<open>1\<close>, and neither \<open>2\<close> nor \<open>toString\<close>.
\<close>

theorem captures_null_prototype_witness:
  "\<exists>c. named (\<lambda>c i orig s. ((c, i, orig), Suc s))
          (replace_args ''ab'' [JStr ''b''] (JNum 0) ''abc'' None) (0::nat) =
          (Inr (c, JNum 0, JStr ''abc''), 1)
     \<and> prototype c = None
     \<and> has_property c ''0'' \<and> has_property c ''1''
     \<and> \<not> has_property c ''2'' \<and> \<not> has_property c ''toString''"
proof -
  have inj: "decimal ` {..length [JStr ''b'']} = {''0'', ''1''}"
    by (auto simp: decimal_small atMost_Suc)
  from captures_null_prototype[of None "[JStr ''b'']" "''ab''" "JNum 0" "''abc''"]
  obtain c where c:
    "\<forall>replacer s. named replacer (replace_args ''ab'' [JStr ''b''] (JNum 0) ''abc'' None) (s::nat) =
       (case replacer c (JNum 0) (JStr ''abc'') s of
          (r :: jsobj \<times> jsval \<times> jsval, s') \<Rightarrow> (Inr r, s'))"
    "prototype c = None"
    "\<forall>k. has_property c k = (k \<in> decimal ` {..length [JStr ''b'']})"
    by auto
  from c(1) have "named (\<lambda>c i orig s. ((c, i, orig), Suc s))
          (replace_args ''ab'' [JStr ''b''] (JNum 0) ''abc'' None) (0::nat) =
          (Inr (c, JNum 0, JStr ''abc''), 1)"
    by simp
  moreover from c(3) have "has_property c ''0''" "has_property c ''1''"
    "\<not> has_property c ''2''" "\<not> has_property c ''toString''"
    unfolding inj by simp_all
  ultimately show ?thesis using c(2) by blast
qed

text \<open>
  Claim C10. When the last argument is a string, the wrapper does not raise: it calls the
  callback, whatever the other arguments are. And when the wrapper raises, its last
  argument is an object.
\<close>

theorem named_string_trailing_never_raises:
  "(\<exists>c. \<forall>rep st.
        named rep (pre @ [JStr str]) st =
          (case rep c (js_nth (pre @ [JStr str]) (int (length (pre @ [JStr str])) - 2))
                  (JStr str) st of
             (r, st') \<Rightarrow> (Inr r, st')))
   \<and> (named replacer args s = (Inl e, s') \<longrightarrow> (\<exists>pre' g. args = pre' @ [JObj g]))"
proof (intro conjI impI)
  show "\<exists>c. \<forall>rep st.
        named rep (pre @ [JStr str]) st =
          (case rep c (js_nth (pre @ [JStr str]) (int (length (pre @ [JStr str])) - 2))
                  (JStr str) st of
             (r, st') \<Rightarrow> (Inr r, st'))"
    by (intro exI allI) (rule named_string_branch)
next
  assume "named replacer args s = (Inl e, s')"
  then show "\<exists>pre' g. args = pre' @ [JObj g]" by (rule named_raises_only_on_object)
qed

text \<open>
  The theorem for a call whose last argument is a string, and for a call that raises.
\<close>

theorem named_string_trailing_never_raises_witness:
  "(\<exists>c. named (\<lambda>c i orig s. ((c, i, orig), Suc s)) ([JStr ''ab'', JNum 0] @ [JStr ''ab''])
          (0::nat) = (Inr (c, JNum 0, JStr ''ab''), 1))
   \<and> (\<exists>pre g. [JStr ''x'', JNum 0, JStr ''x'', JObj (JSObject None [(''0'', JUndefined, True)])] =
          pre @ [JObj g])"
proof -
  let ?rep = "\<lambda>(c::jsobj) (i::jsval) (orig::jsval) (s::nat). ((c, i, orig), Suc s)"
  note t = named_string_trailing_never_raises[of "[JStr ''ab'', JNum 0]" "''ab''" ?rep
      "[JStr ''x'', JNum 0, JStr ''x'', JObj (JSObject None [(''0'', JUndefined, True)])]" 0
      "RangeError ''Numeric name 0 used as a regexp capture name''" 0]
  from t obtain c where "\<forall>rep st. named rep ([JStr ''ab'', JNum 0] @ [JStr ''ab'']) (st::nat) =
      (case rep c (js_nth ([JStr ''ab'', JNum 0] @ [JStr ''ab''])
                     (int (length ([JStr ''ab'', JNum 0] @ [JStr ''ab''])) - 2)) (JStr ''ab'') st of
         (r :: jsobj \<times> jsval \<times> jsval, st') \<Rightarrow> (Inr r, st'))"
    by blast
  then have "named ?rep ([JStr ''ab'', JNum 0] @ [JStr ''ab'']) 0 = (Inr (c, JNum 0, JStr ''ab''), 1)"
    by (simp add: js_nth_def)
  moreover from t collision_example
  have "\<exists>pre g. [JStr ''x'', JNum 0, JStr ''x'', JObj (JSObject None [(''0'', JUndefined, True)])] =
          pre @ [JObj g]"
    by blast
  ultimately show ?thesis by blast
qed

section \<open>Properties of groups\<close>

text \<open>
  Claim C4. For a match result that is not null, \<open>groups\<close> has exactly two outcomes: when
  the result carries a named-captures mapping, it returns that very mapping; when the
  result carries none, it raises a RangeError.
\<close>

theorem groups_non_null:
  "groups (Some r) =
     (case re_groups r of
        Some g \<Rightarrow> Inr (Some g)
      | None \<Rightarrow>
          Inl (RangeError
            ''Attempted to read the named captures of a Regexp without named captures''))"
  by (simp add: groups_def split: option.split)

text \<open>
  Claim C5. On the no-match value null, \<open>groups\<close> returns null and raises nothing.
\<close>

theorem groups_null: "groups None = Inr None"
  by (simp add: groups_def)

section \<open>Properties of execAll\<close>

subsection \<open>Occurrences, the search of exec and the iteration\<close>

text \<open>
  There is no occurrence from \<open>p\<close> on exactly when the pattern matches at no position from
  \<open>p\<close> to the end of the string. The search of a pattern that is not sticky finds the
  first occurrence, and the occurrences are at increasing positions.
\<close>

lemma occurrences_Nil_iff:
  "occurrences m S p = [] \<longleftrightarrow> (\<forall>i. p \<le> i \<and> i \<le> length S \<longrightarrow> m S i = None)"
proof (induction m S p rule: occurrences.induct)
  case (1 m S p)
  show ?case
  proof (cases "p > length S")
    case True
    then show ?thesis by (subst occurrences.simps) auto
  next
    case le: False
    show ?thesis
    proof (cases "m S p")
      case None
      from "1.IH"(1)[OF le None] have
        "occurrences m S (Suc p) = [] \<longleftrightarrow> (\<forall>i. Suc p \<le> i \<and> i \<le> length S \<longrightarrow> m S i = None)" .
      moreover have "(\<forall>i. p \<le> i \<and> i \<le> length S \<longrightarrow> m S i = None) \<longleftrightarrow>
                     (\<forall>i. Suc p \<le> i \<and> i \<le> length S \<longrightarrow> m S i = None)"
      proof
        assume a: "\<forall>i. p \<le> i \<and> i \<le> length S \<longrightarrow> m S i = None"
        show "\<forall>i. Suc p \<le> i \<and> i \<le> length S \<longrightarrow> m S i = None"
          by (simp add: a Suc_leD)
      next
        assume b: "\<forall>i. Suc p \<le> i \<and> i \<le> length S \<longrightarrow> m S i = None"
        show "\<forall>i. p \<le> i \<and> i \<le> length S \<longrightarrow> m S i = None"
        proof (intro allI impI)
          fix i assume i: "p \<le> i \<and> i \<le> length S"
          show "m S i = None"
          proof (cases "i = p")
            case True
            with None show ?thesis by simp
          next
            case False
            with i have "Suc p \<le> i \<and> i \<le> length S" by simp
            with b show ?thesis by blast
          qed
        qed
      qed
      ultimately show ?thesis using le None by (subst occurrences.simps) simp
    next
      case (Some r)
      with le have "occurrences m S p \<noteq> []" by (subst occurrences.simps) simp
      moreover from le Some have "\<not> (\<forall>i. p \<le> i \<and> i \<le> length S \<longrightarrow> m S i = None)"
        by (intro notI) (auto dest!: spec[of _ p])
      ultimately show ?thesis by simp
    qed
  qed
qed

lemma regexp_search_None:
  "(\<forall>i. p \<le> i \<and> i \<le> length S \<longrightarrow> matcher R S i = None) \<Longrightarrow> regexp_search R S p = None"
proof (induction R S p rule: regexp_search.induct)
  case (1 R S i)
  show ?case
  proof (cases "i > length S")
    case True
    then show ?thesis by (subst regexp_search.simps) simp
  next
    case False
    with "1.prems" have n: "matcher R S i = None" by simp
    show ?thesis
    proof (cases "sticky R")
      case True
      with False n show ?thesis by (subst regexp_search.simps) simp
    next
      case ns: False
      from "1.prems" have "\<forall>j. Suc i \<le> j \<and> j \<le> length S \<longrightarrow> matcher R S j = None" by simp
      from "1.IH"[OF False n ns this] False n ns show ?thesis
        by (subst regexp_search.simps) simp
    qed
  qed
qed

lemma regexp_search_occurrences:
  "\<not> sticky R \<Longrightarrow>
   regexp_search R S p = (case occurrences (matcher R) S p of [] \<Rightarrow> None | x # _ \<Rightarrow> Some x)"
proof (induction R S p rule: regexp_search.induct)
  case (1 R S i)
  show ?case
  proof (cases "i > length S")
    case True
    then show ?thesis
      by (subst regexp_search.simps, subst occurrences.simps) simp
  next
    case False
    show ?thesis
    proof (cases "matcher R S i")
      case None
      from "1.IH"[OF False None "1.prems" "1.prems"] False None "1.prems" show ?thesis
        by (subst regexp_search.simps, subst occurrences.simps) simp
    next
      case (Some r)
      with False show ?thesis
        by (subst regexp_search.simps, subst occurrences.simps) simp
    qed
  qed
qed

lemma occurrences_Cons:
  "occurrences m S p = (i, r) # rest \<Longrightarrow>
   rest = occurrences m S (max (ms_end r) (Suc i)) \<and> p \<le> i \<and> i \<le> length S \<and> m S i = Some r"
proof (induction m S p rule: occurrences.induct)
  case (1 m S p)
  from "1.prems" have le: "\<not> p > length S"
    by (subst (asm) occurrences.simps) (simp split: if_splits)
  show ?case
  proof (cases "m S p")
    case None
    with le "1.prems" have "occurrences m S (Suc p) = (i, r) # rest"
      by (subst (asm) occurrences.simps) simp
    from "1.IH"(1)[OF le None this] show ?thesis by simp
  next
    case (Some r')
    with le have "occurrences m S p = (p, r') # occurrences m S (max (ms_end r') (Suc p))"
      by (subst occurrences.simps) simp
    from this[symmetric] "1.prems"
    have "(p, r') # occurrences m S (max (ms_end r') (Suc p)) = (i, r) # rest"
      by (rule trans)
    then have "p = i" "r' = r" "rest = occurrences m S (max (ms_end r') (Suc p))"
      by auto
    with le Some show ?thesis by simp
  qed
qed

lemma occurrences_lower_bound:
  "x \<in> set (occurrences m S p) \<Longrightarrow> p \<le> fst x"
proof (induction m S p rule: occurrences.induct)
  case (1 m S p)
  from "1.prems" have le: "\<not> p > length S"
    by (subst (asm) occurrences.simps) (simp split: if_splits)
  show ?case
  proof (cases "m S p")
    case None
    with le "1.prems" have "x \<in> set (occurrences m S (Suc p))"
      by (subst (asm) occurrences.simps) simp
    from "1.IH"(1)[OF le None this] show ?thesis by simp
  next
    case (Some r')
    with le "1.prems" have "x = (p, r') \<or> x \<in> set (occurrences m S (max (ms_end r') (Suc p)))"
      by (subst (asm) occurrences.simps) simp
    then show ?thesis
    proof
      assume "x = (p, r')" then show ?thesis by simp
    next
      assume "x \<in> set (occurrences m S (max (ms_end r') (Suc p)))"
      from "1.IH"(2)[OF le Some this] show ?thesis by simp
    qed
  qed
qed

lemma occurrences_increasing:
  "sorted_wrt (<) (map fst (occurrences m S p))"
proof (induction m S p rule: occurrences.induct)
  case (1 m S p)
  show ?case
  proof (cases "p > length S")
    case True
    then show ?thesis by (subst occurrences.simps) simp
  next
    case le: False
    show ?thesis
    proof (cases "m S p")
      case None
      from "1.IH"(1)[OF le None] le None show ?thesis
        by (subst occurrences.simps) simp
    next
      case (Some r)
      have "\<forall>x \<in> set (occurrences m S (max (ms_end r) (Suc p))). p < fst x"
      proof
        fix x assume "x \<in> set (occurrences m S (max (ms_end r) (Suc p)))"
        from occurrences_lower_bound[OF this] show "p < fst x" by simp
      qed
      with "1.IH"(2)[OF le Some] le Some show ?thesis
        by (subst occurrences.simps) simp
    qed
  qed
qed

lemma exec_no_match:
  "regexp_search R S (if global R \<or> sticky R then lastIndex R else 0) = None \<Longrightarrow>
   exec R S = (None, if global R \<or> sticky R then R\<lparr>lastIndex := 0\<rparr> else R)"
  by (simp add: exec_def Let_def)

lemma exec_match:
  "regexp_search R S (if global R \<or> sticky R then lastIndex R else 0) = Some (i, r) \<Longrightarrow>
   exec R S = (Some (match_array S (i, r)),
               if global R \<or> sticky R then R\<lparr>lastIndex := ms_end r\<rparr> else R)"
  by (simp add: exec_def Let_def)

lemma no_occurrence_no_search:
  assumes "occurrences (matcher R) S 0 = []"
  shows "regexp_search R S p = None"
proof -
  from assms have "\<forall>i. 0 \<le> i \<and> i \<le> length S \<longrightarrow> matcher R S i = None"
    by (simp only: occurrences_Nil_iff)
  then have "\<forall>i. p \<le> i \<and> i \<le> length S \<longrightarrow> matcher R S i = None" by simp
  then show ?thesis by (rule regexp_search_None)
qed

text \<open>
  The iteration for a global pattern that is not sticky, from its \<^verbatim>\<open>lastIndex\<close>: when
  no occurrence from there on is empty, each pull finds the next occurrence and the pull
  after the last one returns.
\<close>

lemma drain_global:
  assumes "occ = occurrences (matcher R) S (lastIndex R)"
    and "global R" and "\<not> sticky R"
    and "st = SuspendedStart \<or> st = SuspendedYield"
    and "\<forall>x \<in> set occ. fst x < ms_end (snd x)"
  shows "drain (Suc (length occ) + fuel) st R S =
           Some (map (match_array S) occ, R\<lparr>lastIndex := 0\<rparr>)"
  using assms
proof (induction occ arbitrary: R st)
  case Nil
  from Nil.prems(1,3) have "regexp_search R S (lastIndex R) = None"
    by (simp add: regexp_search_occurrences)
  with Nil.prems(2) have "exec R S = (None, R\<lparr>lastIndex := 0\<rparr>)"
    using exec_no_match[of R S] by simp
  with Nil.prems(2,4) show ?case
    by (auto simp: loop_body_def)
next
  case (Cons x rest)
  obtain i r where x: "x = (i, r)" by (cases x)
  from Cons.prems(1) x have oc: "occurrences (matcher R) S (lastIndex R) = (i, r) # rest"
    by simp
  from occurrences_Cons[OF oc] have rest: "rest = occurrences (matcher R) S (max (ms_end r) (Suc i))"
    by simp
  from Cons.prems(5) x have "i < ms_end r" by simp
  then have "max (ms_end r) (Suc i) = ms_end r" by simp
  with rest have rest': "rest = occurrences (matcher (R\<lparr>lastIndex := ms_end r\<rparr>)) S
                                  (lastIndex (R\<lparr>lastIndex := ms_end r\<rparr>))"
    by simp
  from oc Cons.prems(3) have "regexp_search R S (lastIndex R) = Some (i, r)"
    by (simp add: regexp_search_occurrences)
  with Cons.prems(2) have ex: "exec R S = (Some (match_array S (i, r)), R\<lparr>lastIndex := ms_end r\<rparr>)"
    using exec_match[of R S i r] by simp
  from Cons.prems(5) have "\<forall>x \<in> set rest. fst x < ms_end (snd x)" by simp
  from Cons.IH[OF rest' _ _ _ this, of SuspendedYield] Cons.prems(2,3)
  have "drain (Suc (length rest) + fuel) SuspendedYield (R\<lparr>lastIndex := ms_end r\<rparr>) S =
          Some (map (match_array S) rest, R\<lparr>lastIndex := 0\<rparr>)"
    by simp
  with ex Cons.prems(2,4) x show ?case
    by (auto simp: loop_body_def)
qed

text \<open>
  When a global pattern has an empty match at its \<^verbatim>\<open>lastIndex\<close>, \<^verbatim>\<open>exec\<close> leaves
  \<^verbatim>\<open>lastIndex\<close> there, every pull yields this match again, and no amount of fuel lets the
  iteration return.
\<close>

lemma drain_empty_match_never_finishes:
  assumes "global R" and "lastIndex R \<le> length S"
    and "matcher R S (lastIndex R) = Some r" and "ms_end r = lastIndex R"
    and "st \<noteq> Completed"
  shows "drain fuel st R S = None"
  using assms(5)
proof (induction fuel arbitrary: st)
  case 0
  show ?case by simp
next
  case (Suc fuel)
  from assms(2,3) have "regexp_search R S (lastIndex R) = Some (lastIndex R, r)"
    by (subst regexp_search.simps) simp
  with assms(1,4) have "exec R S = (Some (match_array S (lastIndex R, r)), R)"
    using exec_match[of R S "lastIndex R" r] by simp
  with assms(1) Suc.prems have "generator_next st R S =
      (Some (match_array S (lastIndex R, r)), SuspendedYield, R)"
    by (cases st) (simp_all add: loop_body_def)
  with Suc.IH[of SuspendedYield] show ?case by simp
qed

lemma occ_ab: "occurrences (literal ''ab'') ''abcabab'' 0 =
  [(0, \<lparr>ms_end = 2, ms_captures = [], ms_groups = None\<rparr>),
   (3, \<lparr>ms_end = 5, ms_captures = [], ms_groups = None\<rparr>),
   (5, \<lparr>ms_end = 7, ms_captures = [], ms_groups = None\<rparr>)]"
  by (simp add: occurrences.simps literal_def)

subsection \<open>The claims about execAll\<close>

text \<open>
  Claim C3, as amended. For a global pattern that is not sticky, whose \<^verbatim>\<open>lastIndex\<close> is 0
  when the iteration starts, and a target in which no occurrence of the pattern is empty,
  \<open>execAll\<close> yields exactly the occurrences of the pattern in the target, from left to
  right, and then returns: any fuel above their number is enough. The pattern object is
  left as it was.
\<close>

theorem execAll_global:
  assumes "global regexp" and "\<not> sticky regexp" and "lastIndex regexp = 0"
    and "\<forall>(i, r) \<in> set (occurrences (matcher regexp) target 0). i < ms_end r"
  shows "execAll (Suc (length (occurrences (matcher regexp) target 0)) + fuel) regexp target =
           Some (map (match_array target) (occurrences (matcher regexp) target 0), regexp)
         \<and> sorted_wrt (<) (map re_index (map (match_array target)
                                (occurrences (matcher regexp) target 0)))"
proof -
  let ?occ = "occurrences (matcher regexp) target 0"
  from assms(3) have o: "?occ = occurrences (matcher regexp) target (lastIndex regexp)" by simp
  from assms(4) have ne: "\<forall>x \<in> set ?occ. fst x < ms_end (snd x)" by auto
  from assms(3) have same: "regexp\<lparr>lastIndex := 0\<rparr> = regexp" by simp
  from drain_global[OF o assms(1,2) _ ne, of SuspendedStart fuel]
  have "execAll (Suc (length ?occ) + fuel) regexp target = Some (map (match_array target) ?occ, regexp)"
    unfolding execAll_def same by simp
  moreover have "map re_index (map (match_array target) ?occ) = map fst ?occ"
    by (simp add: match_array_def case_prod_beta)
  then have "sorted_wrt (<) (map re_index (map (match_array target) ?occ))"
    by (simp only: occurrences_increasing)
  ultimately show ?thesis by blast
qed

text \<open>The theorem for the pattern \<open>ab\<close>, global, in \<open>abcabab\<close>: three results.\<close>

theorem execAll_global_witness:
  "execAll 4 \<lparr>global = True, sticky = False, lastIndex = 0, matcher = literal ''ab''\<rparr> ''abcabab'' =
     Some ([\<lparr>re_elements = [Some ''ab''], re_index = 0, re_input = ''abcabab'', re_groups = None\<rparr>,
            \<lparr>re_elements = [Some ''ab''], re_index = 3, re_input = ''abcabab'', re_groups = None\<rparr>,
            \<lparr>re_elements = [Some ''ab''], re_index = 5, re_input = ''abcabab'', re_groups = None\<rparr>],
           \<lparr>global = True, sticky = False, lastIndex = 0, matcher = literal ''ab''\<rparr>)"
proof -
  let ?R = "\<lparr>global = True, sticky = False, lastIndex = 0, matcher = literal ''ab''\<rparr>"
  have g: "global ?R" and s: "\<not> sticky ?R" and l: "lastIndex ?R = 0" by simp_all
  have ne: "\<forall>(i, r) \<in> set (occurrences (matcher ?R) ''abcabab'' 0). i < ms_end r"
    by (simp add: occ_ab)
  from execAll_global[OF g s l ne, of 0] show ?thesis
    by (simp add: occ_ab match_array_def substring_def eval_nat_numeral)
qed

text \<open>
  Claim C3 as it is stated fails. A global pattern whose \<^verbatim>\<open>lastIndex\<close> is 1 yields one of
  the two occurrences of \<open>a\<close> in \<open>aa\<close>. A global and sticky pattern yields one of the two
  occurrences of \<open>a\<close> in \<open>aba\<close>. For the empty pattern and the empty target, with one
  occurrence, the iteration never returns: \<^verbatim>\<open>exec\<close> leaves \<^verbatim>\<open>lastIndex\<close> where the empty
  match ends, which is where it started.
\<close>

theorem execAll_global_counterexample:
  "length (occurrences (literal ''a'') ''aa'' 0) = 2
   \<and> execAll 5 \<lparr>global = True, sticky = False, lastIndex = 1, matcher = literal ''a''\<rparr> ''aa'' =
       Some ([\<lparr>re_elements = [Some ''a''], re_index = 1, re_input = ''aa'', re_groups = None\<rparr>],
             \<lparr>global = True, sticky = False, lastIndex = 0, matcher = literal ''a''\<rparr>)
   \<and> length (occurrences (literal ''a'') ''aba'' 0) = 2
   \<and> execAll 5 \<lparr>global = True, sticky = True, lastIndex = 0, matcher = literal ''a''\<rparr> ''aba'' =
       Some ([\<lparr>re_elements = [Some ''a''], re_index = 0, re_input = ''aba'', re_groups = None\<rparr>],
             \<lparr>global = True, sticky = True, lastIndex = 0, matcher = literal ''a''\<rparr>)
   \<and> length (occurrences (literal '''') '''' 0) = 1
   \<and> (\<forall>fuel. execAll fuel \<lparr>global = True, sticky = False, lastIndex = 0, matcher = literal ''''\<rparr>
                  '''' = None)"
proof (intro conjI allI)
  show "length (occurrences (literal ''a'') ''aa'' 0) = 2"
    by (simp add: occurrences.simps literal_def)
  show "execAll 5 \<lparr>global = True, sticky = False, lastIndex = 1, matcher = literal ''a''\<rparr> ''aa'' =
       Some ([\<lparr>re_elements = [Some ''a''], re_index = 1, re_input = ''aa'', re_groups = None\<rparr>],
             \<lparr>global = True, sticky = False, lastIndex = 0, matcher = literal ''a''\<rparr>)"
    by (simp add: execAll_def eval_nat_numeral loop_body_def exec_def regexp_search.simps
          literal_def match_array_def substring_def)
  show "length (occurrences (literal ''a'') ''aba'' 0) = 2"
    by (simp add: occurrences.simps literal_def)
  show "execAll 5 \<lparr>global = True, sticky = True, lastIndex = 0, matcher = literal ''a''\<rparr> ''aba'' =
       Some ([\<lparr>re_elements = [Some ''a''], re_index = 0, re_input = ''aba'', re_groups = None\<rparr>],
             \<lparr>global = True, sticky = True, lastIndex = 0, matcher = literal ''a''\<rparr>)"
    by (simp add: execAll_def eval_nat_numeral loop_body_def exec_def regexp_search.simps
          literal_def match_array_def substring_def)
  show "length (occurrences (literal '''') '''' 0) = 1"
    by (simp add: occurrences.simps literal_def)
  fix fuel
  let ?R = "\<lparr>global = True, sticky = False, lastIndex = 0, matcher = literal ''''\<rparr>"
  show "execAll fuel ?R '''' = None"
    unfolding execAll_def
    by (rule drain_empty_match_never_finishes[where r = "\<lparr>ms_end = 0, ms_captures = [], ms_groups = None\<rparr>"])
       (simp_all add: literal_def)
qed

text \<open>
  Claim C6, as amended. For a pattern that is neither global nor sticky and a target with
  at least one occurrence of the pattern, \<open>execAll\<close> yields exactly one result, the
  leftmost occurrence, and then returns after the second pull, whatever further
  occurrences there are and whatever \<^verbatim>\<open>lastIndex\<close> is. The pattern object is left as it
  was.
\<close>

theorem execAll_non_global:
  assumes "\<not> global regexp" and "\<not> sticky regexp"
    and "occurrences (matcher regexp) target 0 \<noteq> []"
  shows "execAll (Suc (Suc fuel)) regexp target =
           Some ([match_array target (hd (occurrences (matcher regexp) target 0))], regexp)"
proof -
  from assms(3) obtain i r rest where oc: "occurrences (matcher regexp) target 0 = (i, r) # rest"
    by (cases "occurrences (matcher regexp) target 0") auto
  with assms(2) have "regexp_search regexp target 0 = Some (i, r)"
    by (simp add: regexp_search_occurrences)
  with assms(1,2) have "exec regexp target = (Some (match_array target (i, r)), regexp)"
    using exec_match[of regexp target i r] by simp
  with assms(1) oc show ?thesis
    by (simp add: execAll_def loop_body_def)
qed

text \<open>The theorem for the pattern \<open>a\<close>, not global, in \<open>baa\<close>.\<close>

theorem execAll_non_global_witness:
  "execAll 2 \<lparr>global = False, sticky = False, lastIndex = 7, matcher = literal ''a''\<rparr> ''baa'' =
     Some ([\<lparr>re_elements = [Some ''a''], re_index = 1, re_input = ''baa'', re_groups = None\<rparr>],
           \<lparr>global = False, sticky = False, lastIndex = 7, matcher = literal ''a''\<rparr>)"
proof -
  let ?R = "\<lparr>global = False, sticky = False, lastIndex = 7, matcher = literal ''a''\<rparr>"
  have oc: "occurrences (literal ''a'') ''baa'' 0 =
    [(1, \<lparr>ms_end = 2, ms_captures = [], ms_groups = None\<rparr>),
     (2, \<lparr>ms_end = 3, ms_captures = [], ms_groups = None\<rparr>)]"
    by (simp add: occurrences.simps literal_def)
  have g: "\<not> global ?R" and s: "\<not> sticky ?R" by simp_all
  have ne: "occurrences (matcher ?R) ''baa'' 0 \<noteq> []" by (simp add: oc)
  from execAll_non_global[OF g s ne, of 0] show ?thesis
    by (simp add: oc match_array_def substring_def eval_nat_numeral)
qed

text \<open>
  Claim C6 as it is stated fails for a sticky pattern: \<open>a\<close> occurs in \<open>ba\<close>, at position
  1, and the sticky pattern, which is not global, is tried at position 0 only and yields
  nothing.
\<close>

theorem execAll_non_global_counterexample:
  "occurrences (literal ''a'') ''ba'' 0 = [(1, \<lparr>ms_end = 2, ms_captures = [], ms_groups = None\<rparr>)]
   \<and> execAll 5 \<lparr>global = False, sticky = True, lastIndex = 0, matcher = literal ''a''\<rparr> ''ba'' =
       Some ([], \<lparr>global = False, sticky = True, lastIndex = 0, matcher = literal ''a''\<rparr>)"
  by (simp add: occurrences.simps execAll_def eval_nat_numeral loop_body_def exec_def
        regexp_search.simps literal_def)

text \<open>
  Claim C7. For every pattern, whatever its flags and its \<^verbatim>\<open>lastIndex\<close>, and every target
  without an occurrence of the pattern, \<open>execAll\<close> yields nothing and returns at the first
  pull.
\<close>

theorem execAll_no_occurrence:
  assumes "occurrences (matcher regexp) target 0 = []"
  shows "execAll (Suc fuel) regexp target =
           Some ([], if global regexp \<or> sticky regexp then regexp\<lparr>lastIndex := 0\<rparr> else regexp)"
proof -
  from exec_no_match[OF no_occurrence_no_search[OF assms]]
  show ?thesis by (simp add: execAll_def loop_body_def)
qed

text \<open>The theorem for the pattern \<open>x\<close>, global, in \<open>abc\<close>.\<close>

theorem execAll_no_occurrence_witness:
  "execAll 1 \<lparr>global = True, sticky = False, lastIndex = 2, matcher = literal ''x''\<rparr> ''abc'' =
     Some ([], \<lparr>global = True, sticky = False, lastIndex = 0, matcher = literal ''x''\<rparr>)"
proof -
  let ?R = "\<lparr>global = True, sticky = False, lastIndex = 2, matcher = literal ''x''\<rparr>"
  have "occurrences (matcher ?R) ''abc'' 0 = []"
    by (simp add: occurrences.simps literal_def)
  from execAll_no_occurrence[OF this, of 0] show ?thesis by simp
qed

end
